theory Spec2Isabelle
  imports Complex_Main "HOL-Library.Log_Nat" "HOL-Library.Sublist" "HOL-Library.Multiset"
begin

section \<open>Budget-constrained food selection: greedy and 0/1-knapsack dynamic programming\<close>

text \<open>
  A shallow embedding of \<^verbatim>\<open>task_6_greedy_dp_food.py\<close>: the two selectors
  \<^verbatim>\<open>greedy_algorithm\<close> and \<^verbatim>\<open>dynamic_programming\<close>, with Python's list
  indexing, list repetition, dictionary lookup, integer true division and stable sort
  written out. Every exception the Python can raise is a value \<open>Inl e\<close> of the result
  type.
\<close>

subsection \<open>Python values and exceptions\<close>

datatype error = IndexError | KeyError | ZeroDivisionError | OverflowError | MemoryError

text \<open>Sequencing of computations that may raise.\<close>

definition bind_err :: "error + 'a \<Rightarrow> ('a \<Rightarrow> error + 'b) \<Rightarrow> error + 'b" where
  "bind_err m f = (case m of Inl e \<Rightarrow> Inl e | Inr v \<Rightarrow> f v)"

text \<open>\<^verbatim>\<open>for x in xs: body\<close> over a state; the first exception leaves the loop.\<close>

fun for_loop :: "('a \<Rightarrow> 's \<Rightarrow> error + 's) \<Rightarrow> 'a list \<Rightarrow> 's \<Rightarrow> error + 's" where
  "for_loop body [] s = Inr s"
| "for_loop body (x # xs) s =
     (case body x s of Inl e \<Rightarrow> Inl e | Inr s' \<Rightarrow> for_loop body xs s')"

text \<open>\<^verbatim>\<open>xs[i]\<close>: a negative index counts from the end, an index out of range raises.\<close>

definition py_get :: "'a list \<Rightarrow> int \<Rightarrow> error + 'a" where
  "py_get xs i =
     (let n = int (length xs); j = (if i < 0 then i + n else i)
      in if 0 \<le> j \<and> j < n then Inr (xs ! nat j) else Inl IndexError)"

text \<open>\<^verbatim>\<open>xs[i] = v\<close>, with the same index rules.\<close>

definition py_set :: "'a list \<Rightarrow> int \<Rightarrow> 'a \<Rightarrow> error + 'a list" where
  "py_set xs i v =
     (let n = int (length xs); j = (if i < 0 then i + n else i)
      in if 0 \<le> j \<and> j < n then Inr (xs[nat j := v]) else Inl IndexError)"

text \<open>\<^verbatim>\<open>range(start, stop, -1)\<close>: start, start - 1, ..., stop + 1.\<close>

definition py_range_down :: "int \<Rightarrow> int \<Rightarrow> int list" where
  "py_range_down start stop = rev [stop + 1..start]"

text \<open>
  \<^verbatim>\<open>[x] * n\<close> (CPython, 64-bit). The count must fit \<^verbatim>\<open>Py_ssize_t\<close>, else
  OverflowError; a count below 1 gives the empty list; the cells of the new list must fit
  an allocation (at most \<open>PY_SSIZE_T_MAX div 8\<close> pointers) and the memory that is left,
  else MemoryError. The memory is counted in list cells: \<open>mem\<close> is the number of cells the
  interpreter can still allocate, and the result carries what is left of it.
\<close>

definition PY_SSIZE_T_MAX :: int where
  "PY_SSIZE_T_MAX = 2 ^ 63 - 1"

definition py_repeat :: "'a \<Rightarrow> int \<Rightarrow> nat \<Rightarrow> error + 'a list \<times> nat" where
  "py_repeat x n mem =
     (if n < - PY_SSIZE_T_MAX - 1 \<or> PY_SSIZE_T_MAX < n then Inl OverflowError
      else if n \<le> 0 then Inr ([], mem)
      else if PY_SSIZE_T_MAX div 8 < n \<or> int mem < n then Inl MemoryError
      else Inr (replicate (nat n) x, mem - nat n))"

subsection \<open>The data\<close>

text \<open>
  An entry of the catalog is \<^verbatim>\<open>{"cost": int, "calories": int}\<close>; the catalog is a
  \<^verbatim>\<open>dict\<close> from names to entries, which keeps insertion order and has no duplicate key:
  an association list, with \<open>distinct (map fst food_items)\<close> where a statement needs it.
\<close>

record item_data =
  cost :: int
  calories :: int

type_synonym catalog = "(string \<times> item_data) list"

record SelectionResult =
  items :: "string list"
  total_cost :: int
  total_calories :: int

text \<open>\<^verbatim>\<open>food_items[name]\<close>.\<close>

definition dict_get :: "catalog \<Rightarrow> string \<Rightarrow> error + item_data" where
  "dict_get food_items name =
     (case map_of food_items name of None \<Rightarrow> Inl KeyError | Some d \<Rightarrow> Inr d)"

subsection \<open>Integer true division\<close>

text \<open>
  \<^verbatim>\<open>calories / cost\<close> on two Python integers is the binary64 number nearest to the
  exact quotient (ties to even), ZeroDivisionError for a zero divisor and OverflowError when
  that number is not finite. The float is represented by its value, a rational; the two
  zeros compare equal in Python and are one value here.
\<close>

definition pow2 :: "int \<Rightarrow> rat" where
  "pow2 e = (if 0 \<le> e then 2 ^ nat e else 1 / 2 ^ nat (- e))"

definition round_half_even :: "rat \<Rightarrow> int" where
  "round_half_even q =
     (let f = \<lfloor>q\<rfloor>; r = q - of_int f
      in if r < 1 / 2 then f else if 1 / 2 < r then f + 1
         else if even f then f else f + 1)"

text \<open>For \<open>0 < q\<close>, the \<open>e\<close> with \<open>2 ^ e \<le> q < 2 ^ (e + 1)\<close>.\<close>

definition float_exponent :: "rat \<Rightarrow> int" where
  "float_exponent q =
     (case quotient_of q of (a, b) \<Rightarrow>
        let d = bitlen a - bitlen b in if pow2 d \<le> q then d else d - 1)"

text \<open>Rounding to 53 significant bits, with the subnormal spacing below \<open>2 ^ -1022\<close>.\<close>

definition round_double :: "rat \<Rightarrow> rat" where
  "round_double q =
     (if q = 0 then 0
      else let m = \<bar>q\<bar>; e = max (float_exponent m) (- 1022); ulp = pow2 (e - 52)
           in sgn q * of_int (round_half_even (m / ulp)) * ulp)"

definition py_truediv :: "int \<Rightarrow> int \<Rightarrow> error + rat" where
  "py_truediv a b =
     (if b = 0 then Inl ZeroDivisionError
      else let r = round_double (of_int a / of_int b)
           in if 2 ^ 1024 \<le> \<bar>r\<bar> then Inl OverflowError else Inr r)"

subsection \<open>greedy_algorithm\<close>

type_synonym scored_item = "string \<times> int \<times> int \<times> rat"

definition ratio_of :: "scored_item \<Rightarrow> rat" where
  "ratio_of x = (case x of (name, c, cal, ratio) \<Rightarrow> ratio)"

text \<open>The body of the first loop: an entry with \<open>cost \<le> 0\<close> is skipped.\<close>

definition score_step :: "string \<times> item_data \<Rightarrow> scored_item list \<Rightarrow> error + scored_item list" where
  "score_step entry scored =
     (case entry of (name, data) \<Rightarrow>
        if cost data \<le> 0 then Inr scored
        else bind_err (py_truediv (calories data) (cost data)) (\<lambda>ratio.
             Inr (scored @ [(name, cost data, calories data, ratio)])))"

text \<open>
  \<^verbatim>\<open>xs.sort(key=..., reverse=True)\<close>: Python's sort is stable, and with
  \<^verbatim>\<open>reverse=True\<close> it reverses the list, sorts it in ascending order and reverses the
  result, so that equal keys keep their original order.
\<close>

definition py_sort_reverse :: "('a \<Rightarrow> 'k::linorder) \<Rightarrow> 'a list \<Rightarrow> 'a list" where
  "py_sort_reverse key xs = rev (sort_key key (rev xs))"

text \<open>The body of the packing loop, on the state (chosen, total_cost, total_calories),
  written \<open>(chosen, tc, tcal)\<close>; \<open>c\<close> and \<open>cal\<close> are the item's cost and calories.\<close>

definition pack_step :: "int \<Rightarrow> scored_item \<Rightarrow> string list \<times> int \<times> int
    \<Rightarrow> error + string list \<times> int \<times> int" where
  "pack_step budget x st =
     (case x of (name, c, cal, ratio) \<Rightarrow>
      case st of (chosen, tc, tcal) \<Rightarrow>
        if tc + c \<le> budget
        then Inr (chosen @ [name], tc + c, tcal + cal)
        else Inr (chosen, tc, tcal))"

definition greedy_algorithm :: "catalog \<Rightarrow> int \<Rightarrow> error + SelectionResult" where
  "greedy_algorithm food_items budget =
     bind_err (for_loop score_step food_items []) (\<lambda>scored.
     bind_err (for_loop (pack_step budget) (py_sort_reverse ratio_of scored) ([], 0, 0))
       (\<lambda>(chosen, tc, tcal).
     Inr \<lparr>items = chosen, total_cost = tc, total_calories = tcal\<rparr>))"

subsection \<open>dynamic_programming\<close>

text \<open>
  The body of the inner loop, on the state (dp, keep): the row \<open>keep[i]\<close> is its own list
  (the comprehension builds one per item), so writing \<open>keep[i][w]\<close> changes that row only.
\<close>

definition dp_step :: "int \<Rightarrow> int \<Rightarrow> nat \<Rightarrow> int \<Rightarrow> int list \<times> bool list list
    \<Rightarrow> error + int list \<times> bool list list" where
  "dp_step c cal i w st =
     (case st of (dp, keep) \<Rightarrow>
        bind_err (py_get dp (w - c)) (\<lambda>a.
        bind_err (py_get dp w) (\<lambda>b.
        if a + cal > b
        then bind_err (py_set dp w (a + cal)) (\<lambda>dp'.
             bind_err (py_get keep (int i)) (\<lambda>row.
             bind_err (py_set row w True) (\<lambda>row'.
             Inr (dp', keep[i := row']))))
        else Inr (dp, keep))))"

text \<open>The body of the outer loop, for the pair \<open>(i, name)\<close> of \<^verbatim>\<open>enumerate(names)\<close>.\<close>

definition dp_item :: "catalog \<Rightarrow> int \<Rightarrow> nat \<times> string \<Rightarrow> int list \<times> bool list list
    \<Rightarrow> error + int list \<times> bool list list" where
  "dp_item food_items budget entry st =
     (case entry of (i, name) \<Rightarrow>
        bind_err (dict_get food_items name) (\<lambda>d1.
        bind_err (dict_get food_items name) (\<lambda>d2.
        for_loop (dp_step (cost d1) (calories d2) i)
          (py_range_down budget (cost d1 - 1)) st)))"

text \<open>The body of the reconstruction loop, on the state (chosen, w).\<close>

definition reconstruct_step :: "catalog \<Rightarrow> string list \<Rightarrow> bool list list \<Rightarrow> int
    \<Rightarrow> string list \<times> int \<Rightarrow> error + string list \<times> int" where
  "reconstruct_step food_items names keep i st =
     (case st of (chosen, w) \<Rightarrow>
        bind_err (py_get keep i) (\<lambda>row.
        bind_err (py_get row w) (\<lambda>k.
        if k
        then bind_err (py_get names i) (\<lambda>name.
             bind_err (dict_get food_items name) (\<lambda>d.
             Inr (chosen @ [name], w - cost d)))
        else Inr (chosen, w))))"

text \<open>\<^verbatim>\<open>sum(food_items[name][field] for name in chosen)\<close>.\<close>

fun sum_field :: "(item_data \<Rightarrow> int) \<Rightarrow> catalog \<Rightarrow> string list \<Rightarrow> error + int" where
  "sum_field field food_items [] = Inr 0"
| "sum_field field food_items (name # chosen) =
     bind_err (dict_get food_items name) (\<lambda>d.
     bind_err (sum_field field food_items chosen) (\<lambda>s. Inr (field d + s)))"

text \<open>
  One step of the comprehension \<^verbatim>\<open>[[False] * (budget + 1) for _ in range(n)]\<close>, on the
  state (rows so far, memory left).
\<close>

definition alloc_row :: "int \<Rightarrow> nat \<Rightarrow> bool list list \<times> nat \<Rightarrow> error + bool list list \<times> nat" where
  "alloc_row budget i st =
     (case st of (rows, mem) \<Rightarrow>
        bind_err (py_repeat False (budget + 1) mem) (\<lambda>(row, mem'). Inr (rows @ [row], mem')))"

text \<open>
  The function itself. Its first argument is the memory the interpreter has for the two
  tables, in list cells; the Python takes it from its environment.
\<close>

definition dynamic_programming :: "nat \<Rightarrow> catalog \<Rightarrow> int \<Rightarrow> error + SelectionResult" where
  "dynamic_programming mem food_items budget =
     (let names = map fst food_items;
          n = length names
      in bind_err (py_repeat (0 :: int) (budget + 1) mem) (\<lambda>(dp, mem1).
         bind_err (for_loop (alloc_row budget) [0..<n] ([], mem1)) (\<lambda>(keep, mem2).
         bind_err (for_loop (dp_item food_items budget) (enumerate 0 names) (dp, keep))
           (\<lambda>(dp, keep).
         bind_err (for_loop (reconstruct_step food_items names keep)
                     (py_range_down (int n - 1) (- 1)) ([], budget))
           (\<lambda>(chosen, w).
         let chosen = rev chosen in
         bind_err (sum_field cost food_items chosen) (\<lambda>tc.
         bind_err (sum_field calories food_items chosen) (\<lambda>tcal.
         Inr \<lparr>items = chosen, total_cost = tc, total_calories = tcal\<rparr>)))))))"

section \<open>Specification functions\<close>

text \<open>
  What \<open>dynamic_programming\<close> computes once its two tables are allocated: the same passes,
  reconstruction and sums, started on the tables \<open>[0] * (budget + 1)\<close> and one row
  \<open>[False] * (budget + 1)\<close> per item.
\<close>

definition dp_run :: "catalog \<Rightarrow> int \<Rightarrow> error + SelectionResult" where
  "dp_run food_items budget =
     (let names = map fst food_items;
          n = length names;
          dp = replicate (nat (budget + 1)) (0 :: int);
          keep = replicate n (replicate (nat (budget + 1)) False)
      in bind_err (for_loop (dp_item food_items budget) (enumerate 0 names) (dp, keep))
           (\<lambda>(dp, keep).
         bind_err (for_loop (reconstruct_step food_items names keep)
                     (py_range_down (int n - 1) (- 1)) ([], budget))
           (\<lambda>(chosen, w).
         let chosen = rev chosen in
         bind_err (sum_field cost food_items chosen) (\<lambda>tc.
         bind_err (sum_field calories food_items chosen) (\<lambda>tcal.
         Inr \<lparr>items = chosen, total_cost = tc, total_calories = tcal\<rparr>)))))"

text \<open>
  The two tables can be allocated: the count \<open>budget + 1\<close> fits \<^verbatim>\<open>Py_ssize_t\<close>, and if
  it is positive it fits one allocation and the \<open>(n + 1) * (budget + 1)\<close> cells of the
  table and the \<open>n\<close> rows fit the memory.
\<close>

definition tables_fit :: "nat \<Rightarrow> catalog \<Rightarrow> int \<Rightarrow> bool" where
  "tables_fit mem food_items budget =
     (- PY_SSIZE_T_MAX - 1 \<le> budget + 1 \<and>
      (budget + 1 \<le> 0 \<or>
       (budget + 1 \<le> PY_SSIZE_T_MAX div 8 \<and>
        (int (length food_items) + 1) * (budget + 1) \<le> int mem)))"

text \<open>
  The effect of one run of the inner loop, for \<open>w\<close> from \<open>u\<close> down to \<open>c\<close>, on the
  table and on the row of the item, in terms of the table before the run.
\<close>

definition upd_dp :: "int \<Rightarrow> int \<Rightarrow> int \<Rightarrow> int list \<Rightarrow> int list" where
  "upd_dp c cal u dp =
     map (\<lambda>v. if c \<le> int v \<and> int v \<le> u \<and> dp ! v < dp ! nat (int v - c) + cal
               then dp ! nat (int v - c) + cal else dp ! v) [0..<length dp]"

definition upd_row :: "int \<Rightarrow> int \<Rightarrow> int \<Rightarrow> int list \<Rightarrow> bool list \<Rightarrow> bool list" where
  "upd_row c cal u dp row =
     map (\<lambda>v. row ! v \<or> (c \<le> int v \<and> int v \<le> u \<and> dp ! v < dp ! nat (int v - c) + cal))
       [0..<length row]"

text \<open>
  The knapsack recurrence over the items processed so far, the last one first, and the
  items that the backward walk over the \<open>keep\<close> rows picks, in the order of the walk.
\<close>

fun knap :: "item_data list \<Rightarrow> int \<Rightarrow> int" where
  "knap [] w = 0"
| "knap (x # xs) w =
     (if cost x \<le> w \<and> knap xs w < knap xs (w - cost x) + calories x
      then knap xs (w - cost x) + calories x else knap xs w)"

fun backtrack :: "catalog \<Rightarrow> int \<Rightarrow> catalog" where
  "backtrack [] w = []"
| "backtrack (e # es) w =
     (if cost (snd e) \<le> w \<and>
         knap (map snd es) w < knap (map snd es) (w - cost (snd e)) + calories (snd e)
      then e # backtrack es (w - cost (snd e)) else backtrack es w)"

definition tab :: "item_data list \<Rightarrow> nat \<Rightarrow> int list" where
  "tab xs B = map (\<lambda>v. knap xs (int v)) [0..<B]"

definition krow :: "item_data list \<Rightarrow> item_data \<Rightarrow> nat \<Rightarrow> bool list" where
  "krow xs x B =
     map (\<lambda>v. cost x \<le> int v \<and> knap xs (int v) < knap xs (int v - cost x) + calories x)
       [0..<B]"

fun keep_rows :: "item_data list \<Rightarrow> nat \<Rightarrow> bool list list" where
  "keep_rows [] B = []"
| "keep_rows (x # xs) B = keep_rows xs B @ [krow xs x B]"

definition cost_sum :: "catalog \<Rightarrow> int" where
  "cost_sum es = sum_list (map (\<lambda>e. cost (snd e)) es)"

definition calories_sum :: "catalog \<Rightarrow> int" where
  "calories_sum es = sum_list (map (\<lambda>e. calories (snd e)) es)"

text \<open>The items the exact selector returns, in catalog order.\<close>

definition selection :: "catalog \<Rightarrow> int \<Rightarrow> catalog" where
  "selection food_items budget = rev (backtrack (rev food_items) budget)"



text \<open>
  The list the first loop of \<open>greedy_algorithm\<close> builds when no division overflows: the
  entries with positive cost, in catalog order, each with its ratio.
\<close>

definition exact_ratio :: "item_data \<Rightarrow> rat" where
  "exact_ratio d = of_int (calories d) / of_int (cost d)"

definition scored_of :: "catalog \<Rightarrow> scored_item list" where
  "scored_of food_items =
     map (\<lambda>e. (fst e, cost (snd e), calories (snd e), round_double (exact_ratio (snd e))))
       (filter (\<lambda>e. 0 < cost (snd e)) food_items)"

text \<open>The ratio of an entry is a finite binary64 number.\<close>

definition finite_ratio :: "item_data \<Rightarrow> bool" where
  "finite_ratio d = (\<bar>round_double (exact_ratio d)\<bar> < 2 ^ 1024)"

text \<open>No division of the first loop overflows: every entry of positive cost has a finite ratio.\<close>

definition scorable :: "catalog \<Rightarrow> bool" where
  "scorable food_items =
     list_all (\<lambda>e. cost (snd e) \<le> 0 \<or> finite_ratio (snd e)) food_items"

text \<open>The name, cost and calories of a scored entry, and its exact ratio.\<close>

definition sc_name :: "scored_item \<Rightarrow> string" where
  "sc_name x = fst x"

definition sc_data :: "scored_item \<Rightarrow> item_data" where
  "sc_data x = \<lparr>cost = fst (snd x), calories = fst (snd (snd x))\<rparr>"

text \<open>The entries the packing loop takes from a list, with running cost \<open>tc\<close>.\<close>

fun picked :: "int \<Rightarrow> scored_item list \<Rightarrow> int \<Rightarrow> scored_item list" where
  "picked budget [] tc = []"
| "picked budget (x # xs) tc =
     (if tc + cost (sc_data x) \<le> budget
      then x # picked budget xs (tc + cost (sc_data x)) else picked budget xs tc)"

text \<open>The order in which the packing loop walks the entries, and what it takes.\<close>

definition greedy_order :: "catalog \<Rightarrow> scored_item list" where
  "greedy_order food_items = py_sort_reverse ratio_of (scored_of food_items)"

definition greedy_picked :: "catalog \<Rightarrow> int \<Rightarrow> scored_item list" where
  "greedy_picked food_items budget = picked budget (greedy_order food_items) 0"

definition sc_cost_sum :: "scored_item list \<Rightarrow> int" where
  "sc_cost_sum xs = sum_list (map (\<lambda>x. cost (sc_data x)) xs)"

definition sc_calories_sum :: "scored_item list \<Rightarrow> int" where
  "sc_calories_sum xs = sum_list (map (\<lambda>x. calories (sc_data x)) xs)"

text \<open>Further small catalogs for concrete runs.\<close>

definition drinks :: catalog where
  "drinks = [(''a'', \<lparr>cost = 1, calories = 2\<rparr>), (''b'', \<lparr>cost = 2, calories = 4\<rparr>),
             (''c'', \<lparr>cost = 1, calories = 4\<rparr>)]"

definition huge :: catalog where
  "huge = [(''x'', \<lparr>cost = 1, calories = 2 ^ 1024\<rparr>)]"

definition free :: catalog where
  "free = [(''free'', \<lparr>cost = 0, calories = 5\<rparr>)]"


definition free_and_huge :: catalog where
  "free_and_huge = [(''free'', \<lparr>cost = 0, calories = 5\<rparr>), (''x'', \<lparr>cost = 1, calories = 2 ^ 1024\<rparr>)]"

definition free_and_a :: catalog where
  "free_and_a = [(''free'', \<lparr>cost = 0, calories = 5\<rparr>), (''a'', \<lparr>cost = 1, calories = 2\<rparr>)]"

definition empty_result :: SelectionResult where
  "empty_result = \<lparr>items = [], total_cost = 0, total_calories = 0\<rparr>"

section \<open>Verification\<close>

subsection \<open>Python primitives\<close>


lemma bind_err_Inr [simp]: "bind_err (Inr v) f = f v"
  by (simp add: bind_err_def)

lemma bind_err_Inl [simp]: "bind_err (Inl e) f = Inl e"
  by (simp add: bind_err_def)

lemma py_get_in_range: "0 \<le> i \<Longrightarrow> i < int (length xs) \<Longrightarrow> py_get xs i = Inr (xs ! nat i)"
  by (simp add: py_get_def)

lemma py_set_in_range: "0 \<le> i \<Longrightarrow> i < int (length xs) \<Longrightarrow> py_set xs i v = Inr (xs[nat i := v])"
  by (simp add: py_set_def)

lemma py_get_Nil [simp]: "py_get [] i = Inl IndexError"
  by (simp add: py_get_def)

lemma py_range_down_eq: "py_range_down budget (c - 1) = rev [c..budget]"
  by (simp add: py_range_down_def)

subsection \<open>The inner loop of dynamic_programming\<close>

lemma upd_dp_below: "u < c \<Longrightarrow> upd_dp c cal u dp = dp"
  by (rule nth_equalityI) (auto simp: upd_dp_def)

lemma upd_row_below: "u < c \<Longrightarrow> upd_row c cal u dp row = row"
  by (rule nth_equalityI) (auto simp: upd_row_def)

lemma dp_step_in_range:
  assumes "0 \<le> c" "c \<le> w" "w < int (length dp)" "i < length keep" "length (keep ! i) = length dp"
  shows "dp_step c cal i w (dp, keep) =
    (if dp ! nat w < dp ! nat (w - c) + cal
     then Inr (dp[nat w := dp ! nat (w - c) + cal], keep[i := (keep ! i)[nat w := True]])
     else Inr (dp, keep))"
  using assms by (simp add: dp_step_def py_get_in_range py_set_in_range)

lemma inner_loop:
  assumes "0 \<le> c" "u < int (length dp)" "i < length keep" "length (keep ! i) = length dp"
  shows "for_loop (dp_step c cal i) (rev [c..u]) (dp, keep) =
           Inr (upd_dp c cal u dp, keep[i := upd_row c cal u dp (keep ! i)])"
  using assms
proof (induction "nat (u + 1 - c)" arbitrary: u dp keep)
  case 0
  then have "u < c" by simp
  then show ?case by (simp add: upd_dp_below upd_row_below)
next
  case (Suc k)
  then have cu: "c \<le> u" by simp
  then have range: "rev [c..u] = u # rev [c..u - 1]"
    by (simp add: upto_rec2)
  let ?new = "dp ! nat u < dp ! nat (u - c) + cal"
  let ?dp1 = "if ?new then dp[nat u := dp ! nat (u - c) + cal] else dp"
  let ?keep1 = "if ?new then keep[i := (keep ! i)[nat u := True]] else keep"
  have step: "dp_step c cal i u (dp, keep) = Inr (?dp1, ?keep1)"
    using Suc.prems cu by (simp add: dp_step_in_range)
  have k: "k = nat (u - 1 + 1 - c)" using Suc.hyps(2) by simp
  have len1: "u - 1 < int (length ?dp1)" "i < length ?keep1" "length (?keep1 ! i) = length ?dp1"
    using Suc.prems by auto
  have IH: "for_loop (dp_step c cal i) (rev [c..u - 1]) (?dp1, ?keep1) =
      Inr (upd_dp c cal (u - 1) ?dp1, ?keep1[i := upd_row c cal (u - 1) ?dp1 (?keep1 ! i)])"
    by (rule Suc.hyps(1)[OF k Suc.prems(1) len1])
  have dp_eq: "upd_dp c cal (u - 1) ?dp1 = upd_dp c cal u dp"
  proof (rule nth_equalityI)
    show "length (upd_dp c cal (u - 1) ?dp1) = length (upd_dp c cal u dp)"
      by (simp add: upd_dp_def)
  next
    fix v assume "v < length (upd_dp c cal (u - 1) ?dp1)"
    then have v: "v < length dp" by (simp add: upd_dp_def split: if_splits)
    show "upd_dp c cal (u - 1) ?dp1 ! v = upd_dp c cal u dp ! v"
    proof (cases "int v = u")
      case True
      then have "nat u = v" by simp
      with v True cu show ?thesis by (simp add: upd_dp_def)
    next
      case False
      then have "nat u \<noteq> v" using cu Suc.prems(1) by auto
      moreover have "int v \<le> u - 1 \<Longrightarrow> c \<le> int v \<Longrightarrow> nat (int v - c) \<noteq> nat u"
        using Suc.prems(1) by auto
      ultimately show ?thesis using v False by (auto simp: upd_dp_def)
    qed
  qed
  have row_eq: "upd_row c cal (u - 1) ?dp1 (?keep1 ! i) = upd_row c cal u dp (keep ! i)"
  proof (rule nth_equalityI)
    show "length (upd_row c cal (u - 1) ?dp1 (?keep1 ! i)) = length (upd_row c cal u dp (keep ! i))"
      using Suc.prems by (simp add: upd_row_def)
  next
    fix v assume "v < length (upd_row c cal (u - 1) ?dp1 (?keep1 ! i))"
    then have v: "v < length dp" using Suc.prems by (simp add: upd_row_def split: if_splits)
    show "upd_row c cal (u - 1) ?dp1 (?keep1 ! i) ! v = upd_row c cal u dp (keep ! i) ! v"
    proof (cases "int v = u")
      case True
      then have "nat u = v" by simp
      with v True cu Suc.prems show ?thesis by (simp add: upd_row_def)
    next
      case False
      then have "nat u \<noteq> v" using cu Suc.prems(1) by auto
      moreover have "int v \<le> u - 1 \<Longrightarrow> c \<le> int v \<Longrightarrow> nat (int v - c) \<noteq> nat u"
        using Suc.prems(1) by auto
      ultimately show ?thesis using v False Suc.prems by (auto simp: upd_row_def)
    qed
  qed
  have "?keep1[i := upd_row c cal u dp (keep ! i)] = keep[i := upd_row c cal u dp (keep ! i)]"
    by simp
  with IH dp_eq row_eq show ?case
    by (simp add: range step)
qed

subsection \<open>The outer loop of dynamic_programming\<close>

lemma length_tab [simp]: "length (tab xs B) = B"
  by (simp add: tab_def)

lemma nth_tab [simp]: "v < B \<Longrightarrow> tab xs B ! v = knap xs (int v)"
  by (simp add: tab_def)

lemma length_krow [simp]: "length (krow xs x B) = B"
  by (simp add: krow_def)

lemma nth_krow: "v < B \<Longrightarrow>
    krow xs x B ! v = (cost x \<le> int v \<and> knap xs (int v) < knap xs (int v - cost x) + calories x)"
  by (simp add: krow_def)

lemma length_keep_rows [simp]: "length (keep_rows xs B) = length xs"
  by (induction xs) simp_all

lemma upd_dp_tab:
  assumes "0 \<le> cost x" "int B \<le> u + 1"
  shows "upd_dp (cost x) (calories x) u (tab xs B) = tab (x # xs) B"
proof (rule nth_equalityI)
  show "length (upd_dp (cost x) (calories x) u (tab xs B)) = length (tab (x # xs) B)"
    by (simp add: upd_dp_def)
next
  fix v assume "v < length (upd_dp (cost x) (calories x) u (tab xs B))"
  then have v: "v < B" by (simp add: upd_dp_def)
  have idx: "cost x \<le> int v \<Longrightarrow> nat (int v - cost x) < B \<and> int (nat (int v - cost x)) = int v - cost x"
    using assms v by auto
  show "upd_dp (cost x) (calories x) u (tab xs B) ! v = tab (x # xs) B ! v"
    using v assms idx by (auto simp: upd_dp_def)
qed

lemma upd_row_krow:
  assumes "0 \<le> cost x" "int B \<le> u + 1"
  shows "upd_row (cost x) (calories x) u (tab xs B) (replicate B False) = krow xs x B"
proof (rule nth_equalityI)
  show "length (upd_row (cost x) (calories x) u (tab xs B) (replicate B False)) = length (krow xs x B)"
    by (simp add: upd_row_def)
next
  fix v assume "v < length (upd_row (cost x) (calories x) u (tab xs B) (replicate B False))"
  then have v: "v < B" by (simp add: upd_row_def)
  have idx: "cost x \<le> int v \<Longrightarrow> nat (int v - cost x) < B \<and> int (nat (int v - cost x)) = int v - cost x"
    using assms v by auto
  show "upd_row (cost x) (calories x) u (tab xs B) (replicate B False) ! v = krow xs x B ! v"
    using v assms idx by (auto simp: upd_row_def nth_krow)
qed

lemma dict_get_distinct:
  "distinct (map fst food_items) \<Longrightarrow> (name, d) \<in> set food_items \<Longrightarrow> dict_get food_items name = Inr d"
  by (simp add: dict_get_def)

lemma outer_loop:
  assumes "distinct (map fst food_items)" "food_items = pre @ mid @ post"
    "\<forall>e \<in> set mid. 0 \<le> cost (snd e)" "0 \<le> budget" "B = nat (budget + 1)"
  shows "for_loop (dp_item food_items budget) (enumerate (length pre) (map fst mid))
           (tab (rev (map snd pre)) B,
            keep_rows (rev (map snd pre)) B @
              replicate (length mid + length post) (replicate B False)) =
         Inr (tab (rev (map snd (pre @ mid))) B,
              keep_rows (rev (map snd (pre @ mid))) B @ replicate (length post) (replicate B False))"
  using assms(2,3)
proof (induction mid arbitrary: pre)
  case Nil
  then show ?case by simp
next
  case (Cons e mid)
  obtain name d where e: "e = (name, d)" by (cases e)
  let ?xs = "rev (map snd pre)"
  let ?keep = "keep_rows ?xs B @ replicate (length (e # mid) + length post) (replicate B False)"
  have get: "dict_get food_items name = Inr d"
    using assms(1) Cons.prems(1) e by (intro dict_get_distinct) auto
  have d0: "0 \<le> cost d" using Cons.prems(2) e by simp
  have i: "length pre < length ?keep" by simp
  have row: "?keep ! length pre = replicate B False"
    by (simp add: nth_append)
  have inner: "for_loop (dp_step (cost d) (calories d) (length pre)) (rev [cost d..budget])
      (tab ?xs B, ?keep) =
      Inr (upd_dp (cost d) (calories d) budget (tab ?xs B),
           ?keep[length pre := upd_row (cost d) (calories d) budget (tab ?xs B) (?keep ! length pre)])"
    using assms(4,5) d0 i row by (intro inner_loop) auto
  have B: "int B \<le> budget + 1" using assms(4,5) by simp
  have step: "dp_item food_items budget (length pre, name) (tab ?xs B, ?keep) =
      Inr (tab (rev (map snd (pre @ [e]))) B,
           keep_rows (rev (map snd (pre @ [e]))) B @
             replicate (length mid + length post) (replicate B False))"
  proof -
    have "dp_item food_items budget (length pre, name) (tab ?xs B, ?keep) =
        for_loop (dp_step (cost d) (calories d) (length pre)) (rev [cost d..budget])
          (tab ?xs B, ?keep)"
      by (simp add: dp_item_def get py_range_down_eq)
    also have "\<dots> = Inr (upd_dp (cost d) (calories d) budget (tab ?xs B),
           ?keep[length pre := upd_row (cost d) (calories d) budget (tab ?xs B) (replicate B False)])"
      by (simp only: inner row)
    also have "\<dots> = Inr (tab (d # ?xs) B, ?keep[length pre := krow ?xs d B])"
      by (simp only: upd_dp_tab[OF d0 B] upd_row_krow[OF d0 B])
    also have "?keep[length pre := krow ?xs d B] =
        keep_rows (d # ?xs) B @ replicate (length mid + length post) (replicate B False)"
      by (simp add: list_update_append)
    finally show ?thesis by (simp add: e)
  qed
  have IH: "for_loop (dp_item food_items budget) (enumerate (length (pre @ [e])) (map fst mid))
           (tab (rev (map snd (pre @ [e]))) B,
            keep_rows (rev (map snd (pre @ [e]))) B @
              replicate (length mid + length post) (replicate B False)) =
         Inr (tab (rev (map snd ((pre @ [e]) @ mid))) B,
              keep_rows (rev (map snd ((pre @ [e]) @ mid))) B @
                replicate (length post) (replicate B False))"
    using Cons.prems by (intro Cons.IH) auto
  show ?case using step IH by (simp add: e)
qed

subsection \<open>The reconstruction loop of dynamic_programming\<close>

lemma nth_keep_rows:
  "k < length xs \<Longrightarrow> keep_rows (rev xs) B ! k = krow (rev (take k xs)) (xs ! k) B"
proof (induction xs rule: rev_induct)
  case Nil
  then show ?case by simp
next
  case (snoc x xs)
  then show ?case by (cases "k < length xs") (auto simp: nth_append)
qed

lemma cost_sum_simps [simp]:
  "cost_sum [] = 0" "cost_sum (e # es) = cost (snd e) + cost_sum es"
  "cost_sum (es @ fs) = cost_sum es + cost_sum fs" "cost_sum (rev es) = cost_sum es"
  by (simp_all add: cost_sum_def rev_map[symmetric])

lemma calories_sum_simps [simp]:
  "calories_sum [] = 0" "calories_sum (e # es) = calories (snd e) + calories_sum es"
  "calories_sum (es @ fs) = calories_sum es + calories_sum fs" "calories_sum (rev es) = calories_sum es"
  by (simp_all add: calories_sum_def rev_map[symmetric])


lemma backtrack_calories: "calories_sum (backtrack es w) = knap (map snd es) w"
  by (induction es arbitrary: w) auto


lemma reconstruct_loop:
  assumes "distinct (map fst food_items)" "\<forall>e \<in> set food_items. 0 \<le> cost (snd e)"
    "B = nat (budget + 1)" "k \<le> length food_items" "0 \<le> w" "w \<le> budget"
  shows "for_loop (reconstruct_step food_items (map fst food_items)
             (keep_rows (rev (map snd food_items)) B))
           (rev [0..int k - 1]) (chosen, w) =
         Inr (chosen @ map fst (backtrack (rev (take k food_items)) w),
              w - cost_sum (backtrack (rev (take k food_items)) w))"
  using assms(4,5,6)
proof (induction k arbitrary: chosen w)
  case 0
  then show ?case by simp
next
  case (Suc k)
  let ?names = "map fst food_items"
  let ?keep = "keep_rows (rev (map snd food_items)) B"
  let ?e = "food_items ! k"
  let ?xs = "map snd (rev (take k food_items))"
  have k: "k < length food_items" using Suc.prems by simp
  have range: "rev [0..int (Suc k) - 1] = int k # rev [0..int k - 1]"
    by (simp add: upto_rec2)
  have tk: "rev (take (Suc k) food_items) = ?e # rev (take k food_items)"
    using k by (simp add: take_Suc_conv_app_nth)
  have mem: "?e \<in> set food_items" using k by simp
  then have get: "dict_get food_items (fst ?e) = Inr (snd ?e)"
    using assms(1) by (intro dict_get_distinct) simp_all
  have c0: "0 \<le> cost (snd ?e)" using assms(2) mem by blast
  have row: "?keep ! k = krow ?xs (snd ?e) B"
    using k nth_keep_rows[of k "map snd food_items" B] by (simp add: take_map rev_map)
  have wB: "nat w < B" using Suc.prems assms(3) by simp
  let ?take = "cost (snd ?e) \<le> w \<and> knap ?xs w < knap ?xs (w - cost (snd ?e)) + calories (snd ?e)"
  have bit: "krow ?xs (snd ?e) B ! nat w = ?take"
    using wB Suc.prems by (simp add: nth_krow)
  have step: "reconstruct_step food_items ?names ?keep (int k) (chosen, w) =
      (if ?take then Inr (chosen @ [fst ?e], w - cost (snd ?e)) else Inr (chosen, w))"
    using k wB Suc.prems
    by (simp add: reconstruct_step_def py_get_in_range row bit get)
  show ?case
  proof (cases ?take)
    case True
    have "for_loop (reconstruct_step food_items ?names ?keep) (rev [0..int k - 1])
        (chosen @ [fst ?e], w - cost (snd ?e)) =
      Inr ((chosen @ [fst ?e]) @ map fst (backtrack (rev (take k food_items)) (w - cost (snd ?e))),
           (w - cost (snd ?e)) - cost_sum (backtrack (rev (take k food_items)) (w - cost (snd ?e))))"
      using True Suc.prems c0 k by (intro Suc.IH) auto
    with True show ?thesis
      unfolding range for_loop.simps step by (simp add: tk)
  next
    case False
    have "for_loop (reconstruct_step food_items ?names ?keep) (rev [0..int k - 1]) (chosen, w) =
      Inr (chosen @ map fst (backtrack (rev (take k food_items)) w),
           w - cost_sum (backtrack (rev (take k food_items)) w))"
      using Suc.prems k by (intro Suc.IH) auto
    with False show ?thesis
      unfolding range for_loop.simps step by (auto simp: tk)
  qed
qed

lemma sum_field_names:
  assumes "distinct (map fst food_items)" "set es \<subseteq> set food_items"
  shows "sum_field field food_items (map fst es) = Inr (sum_list (map (\<lambda>e. field (snd e)) es))"
  using assms(2)
proof (induction es)
  case Nil
  then show ?case by simp
next
  case (Cons e es)
  then have "dict_get food_items (fst e) = Inr (snd e)"
    using assms(1) by (intro dict_get_distinct) simp_all
  with Cons show ?case by simp
qed



subsection \<open>Optimality of the table and of the selection\<close>

lemma backtrack_set: "set (backtrack es w) \<subseteq> set es"
  by (induction es arbitrary: w) auto

lemma tab_Nil: "tab [] B = replicate B 0"
  by (simp add: tab_def map_replicate_const)

lemma dp_run_eq:
  assumes "distinct (map fst food_items)" "\<forall>e \<in> set food_items. 0 \<le> cost (snd e)" "0 \<le> budget"
  shows "dp_run food_items budget =
    Inr \<lparr>items = map fst (selection food_items budget),
         total_cost = cost_sum (selection food_items budget),
         total_calories = calories_sum (selection food_items budget)\<rparr>"
proof -
  let ?B = "nat (budget + 1)"
  let ?n = "length food_items"
  let ?sel = "selection food_items budget"
  have fwd: "for_loop (dp_item food_items budget) (enumerate 0 (map fst food_items))
      (replicate ?B 0, replicate ?n (replicate ?B False)) =
      Inr (tab (rev (map snd food_items)) ?B, keep_rows (rev (map snd food_items)) ?B)"
    using outer_loop[OF assms(1), of "[]" food_items "[]" budget ?B] assms(2,3)
    by (simp add: tab_Nil)
  have bwd: "for_loop (reconstruct_step food_items (map fst food_items)
      (keep_rows (rev (map snd food_items)) ?B)) (rev [0..int ?n - 1]) ([], budget) =
      Inr (map fst (backtrack (rev food_items) budget),
           budget - cost_sum (backtrack (rev food_items) budget))"
    using reconstruct_loop[OF assms(1,2), of ?B budget ?n budget "[]"] assms(3) by simp
  have sub: "set ?sel \<subseteq> set food_items"
    using backtrack_set[of "rev food_items" budget] by (simp add: selection_def)
  have names: "rev (map fst (backtrack (rev food_items) budget)) = map fst ?sel"
    by (simp add: selection_def rev_map)
  have sums: "sum_field cost food_items (map fst ?sel) = Inr (cost_sum ?sel)"
    "sum_field calories food_items (map fst ?sel) = Inr (calories_sum ?sel)"
    using sum_field_names[OF assms(1) sub] by (simp_all add: cost_sum_def calories_sum_def)
  have rng: "py_range_down (int ?n - 1) (- 1) = rev [0..int ?n - 1]"
    by (simp add: py_range_down_def)
  show ?thesis
    unfolding dp_run_def Let_def length_map rng fwd bind_err_Inr prod.case bwd names sums
    by (rule refl)
qed

lemma subseq_mset: "subseq xs ys \<Longrightarrow> mset xs \<subseteq># mset ys"
proof (induction rule: list_emb.induct)
  case (list_emb_Nil ys)
  then show ?case by simp
next
  case (list_emb_Cons xs ys y)
  then show ?case
    using add_mset_add_mset_same_iff subset_mset.trans by fastforce
next
  case (list_emb_Cons2 x y xs ys)
  then show ?case by simp
qed

lemma knap_mono_item: "knap xs w \<le> knap (x # xs) w"
  by simp

lemma knap_take_item: "cost x \<le> w \<Longrightarrow> knap xs (w - cost x) + calories x \<le> knap (x # xs) w"
  by simp

lemma knap_upper:
  assumes "\<forall>x \<in> set xs. 0 \<le> cost x" "mset s \<subseteq># mset xs" "sum_list (map cost s) \<le> w"
  shows "sum_list (map calories s) \<le> knap xs w"
  using assms
proof (induction xs arbitrary: s w)
  case Nil
  then show ?case by simp
next
  case (Cons x xs)
  show ?case
  proof (cases "x \<in> set s")
    case True
    let ?s = "remove1 x s"
    have sub: "mset ?s \<subseteq># mset xs"
      using Cons.prems(2) by (simp add: subset_eq_diff_conv)
    have costs: "sum_list (map cost s) = cost x + sum_list (map cost ?s)"
      and cals: "sum_list (map calories s) = calories x + sum_list (map calories ?s)"
      using True by (simp_all add: sum_list_map_remove1)
    have "set ?s \<subseteq> set xs" using sub by (metis set_mset_mono set_mset_mset)
    then have "0 \<le> sum_list (map cost ?s)"
      using Cons.prems(1) by (intro sum_list_nonneg) auto
    then have cw: "cost x \<le> w" using costs Cons.prems(3) by simp
    have "sum_list (map calories ?s) \<le> knap xs (w - cost x)"
      using Cons.prems(1,3) sub costs by (intro Cons.IH) auto
    then show ?thesis using cals knap_take_item[OF cw, of xs] by linarith
  next
    case False
    have "mset s \<subseteq># mset xs"
      using Cons.prems(2) False
      by (metis Diff_eq_empty_iff_mset minus_add_mset_if_not_in_lhs set_mset_mset mset.simps(2))
    then have "sum_list (map calories s) \<le> knap xs w"
      using Cons.prems(1,3) by (intro Cons.IH) auto
    then show ?thesis using knap_mono_item[of xs w x] by linarith
  qed
qed


subsection \<open>Integer true division at powers of two\<close>

lemma bitlen_two_power: "bitlen (2 ^ e) = int e + 1"
  using bitlen_pow2[of 1 e] by (simp add: bitlen_alt_def)

lemma float_exponent_pow2: "float_exponent (2 ^ e) = int e"
proof -
  have "quotient_of ((2::rat) ^ e) = (2 ^ e, 1)"
    using quotient_of_int[of "2 ^ e"] by (simp add: Rat.of_int_def)
  then show ?thesis
    by (simp add: float_exponent_def bitlen_two_power pow2_def bitlen_alt_def)
qed

lemma round_half_even_int: "round_half_even (of_int n) = n"
  by (simp add: round_half_even_def)

lemma pow2_split: "k \<le> e \<Longrightarrow> (2::rat) ^ e = 2 ^ (e - k) * 2 ^ k"
  by (simp flip: power_add)

lemma pow2_quotient: "(2::rat) ^ e / pow2 (int e - int k) = 2 ^ k"
proof (cases "k \<le> e")
  case True
  then have "pow2 (int e - int k) = 2 ^ (e - k)"
    by (simp add: pow2_def nat_diff_distrib)
  with pow2_split[OF True] show ?thesis by simp
next
  case False
  then have "pow2 (int e - int k) = 1 / 2 ^ (k - e)"
    by (simp add: pow2_def nat_diff_distrib)
  moreover have "(2::rat) ^ k = 2 ^ (k - e) * 2 ^ e"
    using False by (intro pow2_split) simp
  ultimately show ?thesis by simp
qed

lemma pow2_product: "of_int (2 ^ k) * pow2 (int e - int k) = (2::rat) ^ e"
proof -
  have "pow2 (int e - int k) \<noteq> 0" by (simp add: pow2_def)
  then show ?thesis using pow2_quotient[of e k] by (simp add: field_simps)
qed

lemma round_double_pow2: "round_double (2 ^ e) = 2 ^ e"
proof -
  have q: "(2::rat) ^ e / pow2 (int e - 52) = of_int (2 ^ 52)"
    using pow2_quotient[of e 52] by simp
  have p: "of_int (2 ^ 52) * pow2 (int e - 52) = (2::rat) ^ e"
    using pow2_product[of 52 e] by simp
  have a: "\<bar>(2::rat) ^ e\<bar> = 2 ^ e" and sg: "sgn ((2::rat) ^ e) = 1"
    and mx: "max (int e) (- 1022) = int e"
    by simp_all
  have "round_double (2 ^ e) =
      sgn ((2::rat) ^ e) *
      of_int (round_half_even (\<bar>2 ^ e\<bar> / pow2 (max (float_exponent \<bar>2 ^ e\<bar>) (- 1022) - 52))) *
      pow2 (max (float_exponent \<bar>2 ^ e\<bar>) (- 1022) - 52)"
    by (simp add: round_double_def Let_def)
  also have "\<dots> = 1 * of_int (round_half_even (of_int (2 ^ 52))) * pow2 (int e - 52)"
    by (simp only: a sg float_exponent_pow2 mx q)
  also have "\<dots> = 2 ^ e"
    by (simp only: round_half_even_int p mult_1)
  finally show ?thesis .
qed

lemma py_truediv_pow2:
  assumes "b \<noteq> 0" "a = 2 ^ e * b"
  shows "py_truediv a b = (if e < 1024 then Inr (2 ^ e) else Inl OverflowError)"
proof -
  have h: "(of_int a :: rat) / of_int b = 2 ^ e" using assms by simp
  have ov: "((2::rat) ^ k \<le> \<bar>2 ^ e\<bar>) = (k \<le> e)" for k by simp
  have "py_truediv a b =
      (let r = round_double (2 ^ e) in if 2 ^ 1024 \<le> \<bar>r\<bar> then Inl OverflowError else Inr r)"
    using assms(1) by (simp only: py_truediv_def h if_False)
  also have "\<dots> = (if 1024 \<le> e then Inl OverflowError else Inr (2 ^ e))"
    by (simp only: round_double_pow2 Let_def ov)
  also have "\<dots> = (if e < 1024 then Inr (2 ^ e) else Inl OverflowError)"
    by auto
  finally show ?thesis .
qed

subsection \<open>The two passes of greedy_algorithm\<close>

lemma py_truediv_pos:
  "0 < b \<Longrightarrow> py_truediv a b =
     (if \<bar>round_double (of_int a / of_int b)\<bar> < 2 ^ 1024
      then Inr (round_double (of_int a / of_int b)) else Inl OverflowError)"
  by (simp add: py_truediv_def Let_def not_less)

lemma score_step_eq:
  "score_step e scored =
     (if cost (snd e) \<le> 0 then Inr scored
      else if finite_ratio (snd e)
        then Inr (scored @ [(fst e, cost (snd e), calories (snd e), round_double (exact_ratio (snd e)))])
        else Inl OverflowError)"
  by (cases e) (simp add: score_step_def py_truediv_pos finite_ratio_def exact_ratio_def)

lemma score_loop:
  "for_loop score_step food_items acc =
     (if scorable food_items then Inr (acc @ scored_of food_items) else Inl OverflowError)"
proof (induction food_items arbitrary: acc)
  case Nil
  then show ?case by (simp add: scorable_def scored_of_def)
next
  case (Cons e es)
  have tail: "scored_of (e # es) =
      (if 0 < cost (snd e)
       then (fst e, cost (snd e), calories (snd e), round_double (exact_ratio (snd e))) # scored_of es
       else scored_of es)"
    by (simp add: scored_of_def)
  have sc: "scorable (e # es) = ((cost (snd e) \<le> 0 \<or> finite_ratio (snd e)) \<and> scorable es)"
    by (simp add: scorable_def)
  show ?case
    unfolding for_loop.simps score_step_eq[of e acc]
    by (simp add: Cons.IH tail sc)
qed

lemma pack_step_eq:
  "pack_step budget x (chosen, tc, tcal) =
     (if tc + cost (sc_data x) \<le> budget
      then Inr (chosen @ [sc_name x], tc + cost (sc_data x), tcal + calories (sc_data x))
      else Inr (chosen, tc, tcal))"
  by (cases x) (simp add: pack_step_def sc_data_def sc_name_def)

lemma sc_sums_simps [simp]:
  "sc_cost_sum [] = 0" "sc_cost_sum (x # xs) = cost (sc_data x) + sc_cost_sum xs"
  "sc_calories_sum [] = 0" "sc_calories_sum (x # xs) = calories (sc_data x) + sc_calories_sum xs"
  by (simp_all add: sc_cost_sum_def sc_calories_sum_def)

lemma pack_loop:
  "for_loop (pack_step budget) xs (chosen, tc, tcal) =
     Inr (chosen @ map sc_name (picked budget xs tc),
          tc + sc_cost_sum (picked budget xs tc),
          tcal + sc_calories_sum (picked budget xs tc))"
proof (induction xs arbitrary: chosen tc tcal)
  case Nil
  then show ?case by simp
next
  case (Cons x xs)
  show ?case
    unfolding for_loop.simps pack_step_eq[of budget x chosen tc tcal]
    by (simp add: Cons.IH add.assoc)
qed

lemma greedy_algorithm_eq:
  "greedy_algorithm food_items budget =
     (if scorable food_items
      then Inr \<lparr>items = map sc_name (greedy_picked food_items budget),
                total_cost = sc_cost_sum (greedy_picked food_items budget),
                total_calories = sc_calories_sum (greedy_picked food_items budget)\<rparr>
      else Inl OverflowError)"
  by (simp add: greedy_algorithm_def score_loop pack_loop greedy_picked_def greedy_order_def)

lemma picked_within: "tc \<le> budget \<Longrightarrow> tc + sc_cost_sum (picked budget xs tc) \<le> budget"
proof (induction xs arbitrary: tc)
  case Nil
  then show ?case by simp
next
  case (Cons x xs)
  show ?case
  proof (cases "tc + cost (sc_data x) \<le> budget")
    case True
    from Cons.IH[OF True] True show ?thesis by (simp add: add.assoc)
  next
    case False
    with Cons.IH[OF Cons.prems] show ?thesis by simp
  qed
qed

lemma picked_none:
  "\<forall>x \<in> set xs. 0 < cost (sc_data x) \<Longrightarrow> budget \<le> tc \<Longrightarrow> picked budget xs tc = []"
  by (induction xs) auto


lemma picked_subseq: "subseq (picked budget xs tc) xs"
  by (induction xs arbitrary: tc) auto

lemma mset_greedy_order: "mset (greedy_order food_items) = mset (scored_of food_items)"
  by (simp add: greedy_order_def py_sort_reverse_def)

lemma set_greedy_order: "set (greedy_order food_items) = set (scored_of food_items)"
  using mset_greedy_order[of food_items] by (metis set_mset_mset)

lemma scored_of_positive: "\<forall>x \<in> set (scored_of food_items). 0 < cost (sc_data x)"
  by (auto simp: scored_of_def sc_data_def)

lemma sc_data_scored_of:
  "map sc_data (scored_of food_items) = map snd (filter (\<lambda>e. 0 < cost (snd e)) food_items)"
  by (simp add: scored_of_def sc_data_def comp_def)

lemma sc_name_scored_of:
  "map sc_name (scored_of food_items) = map fst (filter (\<lambda>e. 0 < cost (snd e)) food_items)"
  by (simp add: scored_of_def sc_name_def comp_def)

lemma mset_greedy_picked:
  "mset (map sc_data (greedy_picked food_items budget)) \<subseteq># mset (map snd food_items)"
proof -
  have "mset (greedy_picked food_items budget) \<subseteq># mset (scored_of food_items)"
    using subseq_mset[OF picked_subseq[of budget "greedy_order food_items" 0]]
    by (simp add: greedy_picked_def mset_greedy_order)
  then have "mset (map sc_data (greedy_picked food_items budget)) \<subseteq>#
      mset (map sc_data (scored_of food_items))"
    by (simp add: image_mset_subseteq_mono)
  also have "\<dots> \<subseteq># mset (map snd food_items)"
    unfolding sc_data_scored_of by (simp add: image_mset_subseteq_mono)
  finally show ?thesis .
qed

lemma greedy_picked_within:
  "0 \<le> budget \<Longrightarrow> sc_cost_sum (greedy_picked food_items budget) \<le> budget"
  using picked_within[of 0 budget "greedy_order food_items"] by (simp add: greedy_picked_def)

lemma greedy_below_knap:
  assumes "\<forall>e \<in> set food_items. 0 \<le> cost (snd e)" "0 \<le> budget"
  shows "sc_calories_sum (greedy_picked food_items budget) \<le> calories_sum (selection food_items budget)"
proof -
  have "\<forall>x \<in> set (rev (map snd food_items)). 0 \<le> cost x"
    using assms(1) by auto
  moreover have "mset (map sc_data (greedy_picked food_items budget)) \<subseteq># mset (rev (map snd food_items))"
    using mset_greedy_picked[of food_items budget] by simp
  moreover have "sum_list (map cost (map sc_data (greedy_picked food_items budget))) \<le> budget"
    using greedy_picked_within[OF assms(2), of food_items] by (simp add: sc_cost_sum_def comp_def)
  ultimately have "sum_list (map calories (map sc_data (greedy_picked food_items budget)))
      \<le> knap (rev (map snd food_items)) budget"
    by (rule knap_upper)
  moreover have "calories_sum (selection food_items budget) = knap (rev (map snd food_items)) budget"
    by (simp add: selection_def backtrack_calories rev_map)
  ultimately show ?thesis by (simp add: sc_calories_sum_def comp_def)
qed

subsection \<open>When the passes of dynamic_programming raise\<close>

lemma for_loop_append:
  "for_loop body (xs @ ys) s = bind_err (for_loop body xs s) (for_loop body ys)"
  by (induction xs arbitrary: s) (auto split: sum.splits)

lemma dict_get_member:
  "name \<in> fst ` set food_items \<Longrightarrow> \<exists>d. dict_get food_items name = Inr d"
  by (auto simp: dict_get_def map_of_eq_None_iff split: option.splits)

lemma inner_loop_empty:
  "for_loop (dp_step c cal i) ws ([], keep) = (if ws = [] then Inr ([], keep) else Inl IndexError)"
  by (cases ws) (simp_all add: dp_step_def)

lemma outer_loop_empty:
  assumes "set names \<subseteq> fst ` set food_items"
  shows "for_loop (dp_item food_items budget) (enumerate k names) ([], keep) = Inr ([], keep) \<or>
         for_loop (dp_item food_items budget) (enumerate k names) ([], keep) = Inl IndexError"
  using assms
proof (induction names arbitrary: k)
  case Nil
  then show ?case by simp
next
  case (Cons name names)
  then obtain d where d: "dict_get food_items name = Inr d"
    using dict_get_member[of name food_items] by auto
  have item: "dp_item food_items budget (k, name) ([], keep) =
      (if py_range_down budget (cost d - 1) = [] then Inr ([], keep) else Inl IndexError)"
    by (simp add: dp_item_def d inner_loop_empty)
  show ?case
  proof (cases "py_range_down budget (cost d - 1) = []")
    case True
    with Cons.IH[of "Suc k"] Cons.prems item show ?thesis by simp
  next
    case False
    with item show ?thesis by simp
  qed
qed

lemma reconstruct_empty_rows:
  assumes "0 < n"
  shows "for_loop (reconstruct_step food_items names (replicate n []))
           (py_range_down (int n - 1) (- 1)) (chosen, w) = Inl IndexError"
proof -
  have "py_range_down (int n - 1) (- 1) = (int n - 1) # rev [0..int n - 2]"
    using assms by (simp add: py_range_down_def upto_rec2)
  moreover have "reconstruct_step food_items names (replicate n []) (int n - 1) (chosen, w) =
      Inl IndexError"
    using assms by (simp add: reconstruct_step_def py_get_in_range)
  ultimately show ?thesis by simp
qed

lemma dp_run_negative_budget:
  assumes "budget < 0"
  shows "dp_run food_items budget =
     (if food_items = [] then Inr \<lparr>items = [], total_cost = 0, total_calories = 0\<rparr>
      else Inl IndexError)"
proof (cases "food_items = []")
  case True
  then show ?thesis
    by (simp add: dp_run_def py_range_down_def)
next
  case False
  let ?n = "length food_items"
  have B: "nat (budget + 1) = 0" using assms by simp
  have n: "0 < ?n" using False by simp
  have "set (map fst food_items) \<subseteq> fst ` set food_items" by simp
  from outer_loop_empty[OF this, of budget 0 "replicate ?n []"]
  show ?thesis
  proof
    assume "for_loop (dp_item food_items budget) (enumerate 0 (map fst food_items))
        ([], replicate ?n []) = Inr ([], replicate ?n [])"
    then show ?thesis
      using False by (simp add: dp_run_def B reconstruct_empty_rows[OF n])
  next
    assume "for_loop (dp_item food_items budget) (enumerate 0 (map fst food_items))
        ([], replicate ?n []) = Inl IndexError"
    then show ?thesis
      using False by (simp add: dp_run_def B)
  qed
qed

lemma dp_step_beyond:
  assumes "c < 0" "0 \<le> budget" "length dp = nat (budget + 1)"
  shows "dp_step c cal i budget (dp, keep) = Inl IndexError"
  using assms by (simp add: dp_step_def py_get_def)

lemma dp_run_negative_cost:
  assumes "distinct (map fst food_items)" "0 \<le> budget" "\<exists>e \<in> set food_items. cost (snd e) < 0"
  shows "dp_run food_items budget = Inl IndexError"
proof -
  let ?B = "nat (budget + 1)"
  from assms(3) obtain pre e post where split: "food_items = pre @ e # post"
    and neg: "cost (snd e) < 0" and pre: "\<forall>x \<in> set pre. \<not> cost (snd x) < 0"
    using split_list_first_prop[of food_items "\<lambda>e. cost (snd e) < 0"] by auto
  have fi: "food_items = [] @ pre @ (e # post)" using split by simp
  have pre0: "\<forall>x \<in> set pre. 0 \<le> cost (snd x)" using pre by auto
  let ?st = "(tab (rev (map snd pre)) ?B,
      keep_rows (rev (map snd pre)) ?B @ replicate (length (e # post)) (replicate ?B False))"
  have first: "for_loop (dp_item food_items budget) (enumerate 0 (map fst pre))
      (replicate ?B 0, replicate (length food_items) (replicate ?B False)) = Inr ?st"
    using outer_loop[OF assms(1) fi pre0 assms(2) refl] split by (simp add: tab_Nil)
  have get: "dict_get food_items (fst e) = Inr (snd e)"
    using assms(1) split by (intro dict_get_distinct) simp_all
  have range: "py_range_down budget (cost (snd e) - 1) = budget # rev [cost (snd e)..budget - 1]"
    using neg assms(2) by (simp add: py_range_down_def upto_rec2)
  have item: "dp_item food_items budget (length pre, fst e) ?st = Inl IndexError"
    unfolding dp_item_def prod.case get bind_err_Inr range for_loop.simps
    using dp_step_beyond[OF neg assms(2), of "tab (rev (map snd pre)) ?B"] by simp
  have "enumerate 0 (map fst food_items) =
      enumerate 0 (map fst pre) @ (length pre, fst e) # enumerate (Suc (length pre)) (map fst post)"
    by (simp add: split enumerate_append_eq)
  then have "for_loop (dp_item food_items budget) (enumerate 0 (map fst food_items))
      (replicate ?B 0, replicate (length food_items) (replicate ?B False)) = Inl IndexError"
    by (simp only: for_loop_append first bind_err_Inr for_loop.simps item sum.case)
  then show ?thesis
    by (simp add: dp_run_def Let_def)
qed

subsection \<open>Full budget, zero budget and the order of the greedy walk\<close>



lemma backtrack_zero:
  assumes "\<forall>e \<in> set es. 0 \<le> cost (snd e) \<and> (cost (snd e) = 0 \<longrightarrow> calories (snd e) \<le> 0)"
  shows "backtrack es 0 = []"
  using assms by (induction es) auto

lemma py_sort_reverse_sorted: "sorted (rev (map key (py_sort_reverse key xs)))"
  by (simp add: py_sort_reverse_def rev_map)

lemma py_sort_reverse_stable:
  "filter (\<lambda>x. key x = k) (py_sort_reverse key xs) = filter (\<lambda>x. key x = k) xs"
proof -
  have "filter (\<lambda>x. key x = k) (py_sort_reverse key xs) =
      rev (filter (\<lambda>x. key x = k) (sort_key key (rev xs)))"
    by (simp add: py_sort_reverse_def rev_filter)
  also have "\<dots> = rev (filter (\<lambda>x. key x = k) (rev xs))"
    by (simp only: sort_key_stable)
  also have "\<dots> = filter (\<lambda>x. key x = k) xs"
    by (simp add: rev_filter)
  finally show ?thesis .
qed

lemma ratio_of_scored_of:
  "x \<in> set (scored_of food_items) \<Longrightarrow> ratio_of x = round_double (exact_ratio (sc_data x))"
  by (auto simp: scored_of_def ratio_of_def sc_data_def exact_ratio_def)

lemma filter_refine:
  assumes "\<forall>x \<in> set xs. P x \<longrightarrow> Q x" "filter Q xs = filter Q ys" "set xs = set ys"
  shows "filter P xs = filter P ys"
proof -
  have "filter P xs = filter P (filter Q xs)"
    using assms(1) by (auto simp: filter_filter intro!: filter_cong)
  also have "\<dots> = filter P (filter Q ys)" by (simp only: assms(2))
  also have "\<dots> = filter P ys"
    using assms(1,3) by (auto simp: filter_filter intro!: filter_cong)
  finally show ?thesis .
qed

lemma greedy_order_stable:
  "filter (\<lambda>x. exact_ratio (sc_data x) = q) (greedy_order food_items) =
   filter (\<lambda>x. exact_ratio (sc_data x) = q) (scored_of food_items)"
proof (rule filter_refine[where Q = "\<lambda>x. ratio_of x = round_double q"])
  show "\<forall>x \<in> set (greedy_order food_items).
      exact_ratio (sc_data x) = q \<longrightarrow> ratio_of x = round_double q"
    by (auto simp: set_greedy_order ratio_of_scored_of)
next
  show "filter (\<lambda>x. ratio_of x = round_double q) (greedy_order food_items) =
      filter (\<lambda>x. ratio_of x = round_double q) (scored_of food_items)"
    unfolding greedy_order_def by (rule py_sort_reverse_stable)
next
  show "set (greedy_order food_items) = set (scored_of food_items)"
    by (rule set_greedy_order)
qed

subsection \<open>Concrete runs\<close>


lemma round_double_2: "round_double 2 = 2"
  using round_double_pow2[of 1] by simp

lemma round_double_4: "round_double 4 = 4"
  using round_double_pow2[of 2] by simp

lemma scorable_drinks: "scorable drinks"
  by (simp add: scorable_def drinks_def finite_ratio_def exact_ratio_def round_double_2 round_double_4)

lemma scored_of_drinks:
  "scored_of drinks = [(''a'', 1, 2, 2), (''b'', 2, 4, 2), (''c'', 1, 4, 4)]"
  by (simp add: scored_of_def drinks_def exact_ratio_def round_double_2 round_double_4)

lemma greedy_order_drinks:
  "greedy_order drinks = [(''c'', 1, 4, 4), (''a'', 1, 2, 2), (''b'', 2, 4, 2)]"
  by (simp add: greedy_order_def scored_of_drinks py_sort_reverse_def ratio_of_def)

lemma greedy_drinks_3:
  "greedy_algorithm drinks 3 = Inr \<lparr>items = [''c'', ''a''], total_cost = 2, total_calories = 6\<rparr>"
  by (simp add: greedy_algorithm_eq scorable_drinks greedy_picked_def greedy_order_drinks
      sc_data_def sc_name_def)

lemma exact_drinks_3:
  "dp_run drinks 3 = Inr \<lparr>items = [''b'', ''c''], total_cost = 3, total_calories = 8\<rparr>"
  by code_simp



lemma py_truediv_huge: "py_truediv (2 ^ 1024) 1 = Inl OverflowError"
  using py_truediv_pow2[of 1 "2 ^ 1024" 1024] by simp

lemma greedy_huge: "greedy_algorithm huge budget = Inl OverflowError"
  using py_truediv_huge by (simp add: greedy_algorithm_def huge_def score_step_def)

lemma greedy_free_and_huge: "greedy_algorithm free_and_huge budget = Inl OverflowError"
  using py_truediv_huge by (simp add: greedy_algorithm_def free_and_huge_def score_step_def)

lemma exact_free:
  "dp_run free 0 = Inr \<lparr>items = [''free''], total_cost = 0, total_calories = 5\<rparr>"
  by code_simp



subsection \<open>The complete behaviour of the two selectors\<close>

lemma dp_run_cases:
  assumes "distinct (map fst food_items)"
  shows "dp_run food_items budget =
    (if food_items = [] then Inr empty_result
     else if 0 \<le> budget \<and> (\<forall>e \<in> set food_items. 0 \<le> cost (snd e))
     then Inr \<lparr>items = map fst (selection food_items budget),
               total_cost = cost_sum (selection food_items budget),
               total_calories = calories_sum (selection food_items budget)\<rparr>
     else Inl IndexError)"
proof (cases "budget < 0")
  case True
  then show ?thesis
    by (simp add: dp_run_negative_budget empty_result_def)
next
  case False
  then have b: "0 \<le> budget" by simp
  show ?thesis
  proof (cases "\<forall>e \<in> set food_items. 0 \<le> cost (snd e)")
    case True
    have "food_items = [] \<Longrightarrow> selection food_items budget = []"
      by (simp add: selection_def)
    then show ?thesis
      using dp_run_eq[OF assms True b] True b
      by (auto simp: empty_result_def)
  next
    case False
    then have "\<exists>e \<in> set food_items. cost (snd e) < 0" by (auto simp: not_le)
    from dp_run_negative_cost[OF assms b this] False show ?thesis
      by auto
  qed
qed

lemma greedy_empty_catalog: "greedy_algorithm [] budget = Inr empty_result"
  by (simp add: greedy_algorithm_def py_sort_reverse_def empty_result_def)

lemma greedy_nonpositive_budget:
  assumes "scorable food_items" "budget \<le> 0"
  shows "greedy_algorithm food_items budget = Inr empty_result"
proof -
  have "\<forall>x \<in> set (greedy_order food_items). 0 < cost (sc_data x)"
    using scored_of_positive[of food_items] by (simp add: set_greedy_order)
  then have "greedy_picked food_items budget = []"
    unfolding greedy_picked_def using assms(2) by (rule picked_none)
  then show ?thesis
    using assms(1) by (simp add: greedy_algorithm_eq empty_result_def)
qed

subsection \<open>Sums over permutations and a run with a free item\<close>


lemma scorable_free_and_a: "scorable free_and_a"
  by (simp add: scorable_def free_and_a_def finite_ratio_def exact_ratio_def round_double_2)

lemma greedy_order_free_and_a: "greedy_order free_and_a = [(''a'', 1, 2, 2)]"
  by (simp add: greedy_order_def scored_of_def free_and_a_def exact_ratio_def round_double_2
      py_sort_reverse_def)

lemma greedy_free_and_a:
  "greedy_algorithm free_and_a 1 = Inr \<lparr>items = [''a''], total_cost = 1, total_calories = 2\<rparr>"
  by (simp add: greedy_algorithm_eq scorable_free_and_a greedy_picked_def greedy_order_free_and_a
      sc_data_def sc_name_def)

subsection \<open>The names the greedy walk can return\<close>

lemma greedy_order_names:
  "set (map sc_name (greedy_order food_items)) \<subseteq> fst ` {e \<in> set food_items. 0 < cost (snd e)}"
proof -
  have "set (map sc_name (greedy_order food_items)) = set (map sc_name (scored_of food_items))"
    by (simp add: set_greedy_order)
  also have "\<dots> = fst ` {e \<in> set food_items. 0 < cost (snd e)}"
    unfolding sc_name_scored_of by auto
  finally show ?thesis by simp
qed

subsection \<open>Allocating the tables\<close>

lemma ssize_max_pos: "0 \<le> PY_SSIZE_T_MAX div 8" "PY_SSIZE_T_MAX div 8 \<le> PY_SSIZE_T_MAX"
  by (simp_all add: PY_SSIZE_T_MAX_def)

lemma py_repeat_nonpos:
  "- PY_SSIZE_T_MAX - 1 \<le> n \<Longrightarrow> n \<le> 0 \<Longrightarrow> py_repeat x n mem = Inr ([], mem)"
  using ssize_max_pos by (simp add: py_repeat_def)

lemma py_repeat_pos:
  "0 < n \<Longrightarrow> n \<le> PY_SSIZE_T_MAX div 8 \<Longrightarrow>
   py_repeat x n mem =
     (if n \<le> int mem then Inr (replicate (nat n) x, mem - nat n) else Inl MemoryError)"
  using ssize_max_pos by (simp add: py_repeat_def)

lemma alloc_rows_nonpos:
  assumes "- PY_SSIZE_T_MAX - 1 \<le> budget + 1" "budget + 1 \<le> 0"
  shows "for_loop (alloc_row budget) xs (rows, mem) = Inr (rows @ replicate (length xs) [], mem)"
proof (induction xs arbitrary: rows)
  case Nil
  then show ?case by simp
next
  case (Cons x xs)
  have "alloc_row budget x (rows, mem) = Inr (rows @ [[]], mem)"
    by (simp add: alloc_row_def py_repeat_nonpos[OF assms])
  then show ?case
    by (simp add: Cons.IH replicate_app_Cons_same)
qed

lemma alloc_rows_pos:
  assumes "0 < budget + 1" "budget + 1 \<le> PY_SSIZE_T_MAX div 8"
  shows "for_loop (alloc_row budget) xs (rows, mem) =
    (if length xs * nat (budget + 1) \<le> mem
     then Inr (rows @ replicate (length xs) (replicate (nat (budget + 1)) False),
               mem - length xs * nat (budget + 1))
     else Inl MemoryError)"
proof (induction xs arbitrary: rows mem)
  case Nil
  then show ?case by simp
next
  case (Cons x xs)
  let ?k = "nat (budget + 1)"
  have le: "(budget + 1 \<le> int mem) = (?k \<le> mem)" using assms(1) by linarith
  have step: "alloc_row budget x (rows, mem) =
      (if ?k \<le> mem then Inr (rows @ [replicate ?k False], mem - ?k) else Inl MemoryError)"
    unfolding alloc_row_def prod.case py_repeat_pos[OF assms] le by simp
  show ?case
  proof (cases "?k \<le> mem")
    case True
    then have "(length (x # xs) * ?k \<le> mem) = (length xs * ?k \<le> mem - ?k)"
      by auto
    moreover have "mem - ?k - length xs * ?k = mem - length (x # xs) * ?k"
      by simp
    ultimately show ?thesis
      using True unfolding for_loop.simps step by (simp add: Cons.IH replicate_app_Cons_same)
  next
    case False
    then have "\<not> length (x # xs) * ?k \<le> mem" by simp
    with False show ?thesis unfolding for_loop.simps step by simp
  qed
qed

lemma dynamic_programming_alloc:
  "dynamic_programming mem food_items budget =
     (if budget + 1 < - PY_SSIZE_T_MAX - 1 \<or> PY_SSIZE_T_MAX < budget + 1 then Inl OverflowError
      else if tables_fit mem food_items budget then dp_run food_items budget
      else Inl MemoryError)"
proof -
  let ?n = "length food_items"
  let ?k = "nat (budget + 1)"
  consider (out) "budget + 1 < - PY_SSIZE_T_MAX - 1 \<or> PY_SSIZE_T_MAX < budget + 1"
    | (nonpos) "- PY_SSIZE_T_MAX - 1 \<le> budget + 1" "budget + 1 \<le> 0"
    | (big) "PY_SSIZE_T_MAX div 8 < budget + 1" "budget + 1 \<le> PY_SSIZE_T_MAX"
    | (pos) "0 < budget + 1" "budget + 1 \<le> PY_SSIZE_T_MAX div 8"
    using ssize_max_pos by linarith
  then show ?thesis
  proof cases
    case out
    then show ?thesis by (simp add: dynamic_programming_def py_repeat_def)
  next
    case nonpos
    then have fit: "tables_fit mem food_items budget" by (simp add: tables_fit_def)
    have k: "?k = 0" using nonpos by simp
    have rows: "for_loop (alloc_row budget) [0..<?n] ([], mem) = Inr (replicate ?n [], mem)"
      using alloc_rows_nonpos[OF nonpos, of "[0..<?n]" "[]" mem] by simp
    show ?thesis
      using nonpos fit ssize_max_pos
      by (simp add: dynamic_programming_def dp_run_def py_repeat_nonpos[OF nonpos] rows k Let_def)
  next
    case big
    then have "\<not> tables_fit mem food_items budget"
      using ssize_max_pos by (simp add: tables_fit_def)
    moreover have "py_repeat (0::int) (budget + 1) mem = Inl MemoryError"
      using big ssize_max_pos by (simp add: py_repeat_def)
    ultimately show ?thesis
      using big by (simp add: dynamic_programming_def)
  next
    case pos
    have k: "0 < ?k" "int ?k = budget + 1" using pos(1) by simp_all
    have range: "\<not> (budget + 1 < - PY_SSIZE_T_MAX - 1 \<or> PY_SSIZE_T_MAX < budget + 1)"
      using pos ssize_max_pos by linarith
    have fit: "tables_fit mem food_items budget = ((?n + 1) * ?k \<le> mem)"
    proof -
      have "(int ?n + 1) * (budget + 1) = int ((?n + 1) * ?k)"
        using k(2) by (simp add: algebra_simps)
      then have "((int ?n + 1) * (budget + 1) \<le> int mem) = (int ((?n + 1) * ?k) \<le> int mem)"
        by (simp only:)
      then show ?thesis
        using pos ssize_max_pos unfolding tables_fit_def by (simp only: of_nat_le_iff) auto
    qed
    show ?thesis
    proof (cases "?k \<le> mem")
      case False
      then have "\<not> (?n + 1) * ?k \<le> mem" by simp
      moreover have "py_repeat (0::int) (budget + 1) mem = Inl MemoryError"
        using False k by (simp add: py_repeat_pos[OF pos])
      ultimately show ?thesis
        using range fit by (simp add: dynamic_programming_def)
    next
      case True
      have dp: "py_repeat (0::int) (budget + 1) mem = Inr (replicate ?k 0, mem - ?k)"
        using True k by (simp add: py_repeat_pos[OF pos])
      have rows: "for_loop (alloc_row budget) [0..<?n] ([], mem - ?k) =
          (if ?n * ?k \<le> mem - ?k
           then Inr (replicate ?n (replicate ?k False), mem - ?k - ?n * ?k)
           else Inl MemoryError)"
        using alloc_rows_pos[OF pos, of "[0..<?n]" "[]" "mem - ?k"] by simp
      have iff: "(?n * ?k \<le> mem - ?k) = ((?n + 1) * ?k \<le> mem)"
        using True by auto
      show ?thesis
      proof (cases "(?n + 1) * ?k \<le> mem")
        case True
        then show ?thesis
          using range fit iff
          by (simp add: dynamic_programming_def dp_run_def dp rows Let_def)
      next
        case False
        then show ?thesis
          using range fit iff
          by (simp add: dynamic_programming_def dp rows Let_def)
      qed
    qed
  qed
qed

subsection \<open>dynamic_programming in terms of its tables\<close>

lemma tables_fit_range:
  "tables_fit mem food_items budget \<Longrightarrow>
   \<not> (budget + 1 < - PY_SSIZE_T_MAX - 1 \<or> PY_SSIZE_T_MAX < budget + 1)"
  using ssize_max_pos by (auto simp: tables_fit_def)

lemma dynamic_programming_fit:
  "tables_fit mem food_items budget \<Longrightarrow>
   dynamic_programming mem food_items budget = dp_run food_items budget"
  using tables_fit_range[of mem food_items budget] by (simp add: dynamic_programming_alloc)


lemma dynamic_programming_returns:
  "dynamic_programming mem food_items budget = Inr d \<Longrightarrow>
   tables_fit mem food_items budget \<and> dp_run food_items budget = Inr d"
  by (auto simp: dynamic_programming_alloc split: if_splits)

lemma dynamic_programming_eq:
  assumes "distinct (map fst food_items)" "\<forall>e \<in> set food_items. 0 \<le> cost (snd e)" "0 \<le> budget"
    "tables_fit mem food_items budget"
  shows "dynamic_programming mem food_items budget =
    Inr \<lparr>items = map fst (selection food_items budget),
         total_cost = cost_sum (selection food_items budget),
         total_calories = calories_sum (selection food_items budget)\<rparr>"
  using dp_run_eq[OF assms(1,2,3)] dynamic_programming_fit[OF assms(4)] by simp

lemma dp_run_returns:
  assumes "distinct (map fst food_items)" "dp_run food_items budget = Inr d"
  shows "d = \<lparr>items = map fst (selection food_items budget),
              total_cost = cost_sum (selection food_items budget),
              total_calories = calories_sum (selection food_items budget)\<rparr> \<and>
         (food_items = [] \<or> (0 \<le> budget \<and> (\<forall>e \<in> set food_items. 0 \<le> cost (snd e))))"
proof (cases "food_items = []")
  case True
  then have "selection food_items budget = []" by (simp add: selection_def)
  with True assms dp_run_cases[OF assms(1), of budget] show ?thesis
    by (simp add: empty_result_def)
next
  case False
  with assms dp_run_cases[OF assms(1), of budget] show ?thesis
    by (auto split: if_splits)
qed


lemma tables_fit_drinks: "tables_fit 100 drinks 0" "tables_fit 100 drinks 3" "tables_fit 100 drinks 4"
  by (simp_all add: tables_fit_def PY_SSIZE_T_MAX_def drinks_def)

lemma tables_fit_empty: "tables_fit 100 [] 7"
  by (simp add: tables_fit_def PY_SSIZE_T_MAX_def)

lemma exact_overflow:
  "dynamic_programming mem food_items (2 ^ 63 - 1) = Inl OverflowError"
  "dynamic_programming mem food_items (2 ^ 63) = Inl OverflowError"
  by (simp_all add: dynamic_programming_alloc PY_SSIZE_T_MAX_def)

lemma exact_free_run:
  "dynamic_programming 100 free 0 =
     Inr \<lparr>items = [''free''], total_cost = 0, total_calories = 5\<rparr>"
proof -
  have "tables_fit 100 free 0"
    by (simp add: tables_fit_def PY_SSIZE_T_MAX_def free_def)
  then show ?thesis by (simp add: dynamic_programming_fit exact_free)
qed


section \<open>The claims\<close>

text \<open>
  Each claim of the specification, stated over the embedding. A catalog is a list of
  entries with distinct names; \<open>scorable\<close> says that no division of the greedy selector
  overflows; \<open>tables_fit\<close> says that the two tables of the exact selector can be allocated.
\<close>




text \<open>
  C2. Whenever both selectors return on the same catalog and budget, the
  \<open>total_calories\<close> of \<open>dynamic_programming\<close> is at least that of \<open>greedy_algorithm\<close>; and
  both return for every non-negative budget and every catalog with non-negative costs in
  which no ratio overflows, when the tables of the exact selector can be allocated.
  (Elsewhere a selector raises and has no result to compare.)
\<close>

theorem exact_dominates_greedy:
  assumes "distinct (map fst food_items)"
  shows "(\<forall>g d. greedy_algorithm food_items budget = Inr g \<and>
              dynamic_programming mem food_items budget = Inr d \<longrightarrow>
              total_calories g \<le> total_calories d) \<and>
         (0 \<le> budget \<and> (\<forall>e \<in> set food_items. 0 \<le> cost (snd e)) \<and> scorable food_items \<and>
          tables_fit mem food_items budget \<longrightarrow>
            (\<exists>g d. greedy_algorithm food_items budget = Inr g \<and>
                   dynamic_programming mem food_items budget = Inr d))"
proof (intro conjI allI impI)
  fix g d
  assume gd: "greedy_algorithm food_items budget = Inr g \<and>
      dynamic_programming mem food_items budget = Inr d"
  then have sc: "scorable food_items"
    by (auto simp: greedy_algorithm_eq split: if_splits)
  have g: "total_calories g = sc_calories_sum (greedy_picked food_items budget)"
    using gd sc by (auto simp: greedy_algorithm_eq)
  have run: "dp_run food_items budget = Inr d"
    using gd dynamic_programming_returns by blast
  note d = dp_run_returns[OF assms run]
  show "total_calories g \<le> total_calories d"
  proof (cases "food_items = []")
    case True
    then have "greedy_picked food_items budget = []"
      by (simp add: greedy_picked_def greedy_order_def scored_of_def py_sort_reverse_def)
    moreover have "selection food_items budget = []"
      using True by (simp add: selection_def)
    ultimately show ?thesis using g d by simp
  next
    case False
    then have dom: "0 \<le> budget" "\<forall>e \<in> set food_items. 0 \<le> cost (snd e)"
      using d by auto
    have "total_calories d = calories_sum (selection food_items budget)"
      using d by simp
    with g greedy_below_knap[OF dom(2,1)] show ?thesis by simp
  qed
next
  assume "0 \<le> budget \<and> (\<forall>e \<in> set food_items. 0 \<le> cost (snd e)) \<and> scorable food_items \<and>
      tables_fit mem food_items budget"
  then show "\<exists>g d. greedy_algorithm food_items budget = Inr g \<and>
      dynamic_programming mem food_items budget = Inr d"
    using dynamic_programming_eq[OF assms, of budget mem] by (simp add: greedy_algorithm_eq)
qed

theorem exact_dominates_greedy_witness:
  "greedy_algorithm drinks 3 = Inr \<lparr>items = [''c'', ''a''], total_cost = 2, total_calories = 6\<rparr> \<and>
   dynamic_programming 100 drinks 3 =
     Inr \<lparr>items = [''b'', ''c''], total_cost = 3, total_calories = 8\<rparr> \<and>
   total_calories \<lparr>items = [''c'', ''a''], total_cost = 2, total_calories = 6\<rparr>
     \<le> total_calories \<lparr>items = [''b'', ''c''], total_cost = 3, total_calories = 8\<rparr>"
proof -
  have "distinct (map fst drinks)" by (simp add: drinks_def)
  from exact_dominates_greedy[OF this, of 3 100] show ?thesis
    by (simp add: greedy_drinks_3 dynamic_programming_fit tables_fit_drinks exact_drinks_3)
qed




text \<open>
  C4, as stated, fails: \<open>dynamic_programming\<close> has no check of the budget. On the empty
  catalog with budget \<open>-1\<close> it allocates its empty table and returns the empty result.
\<close>

theorem negative_budget_exact_counterexample:
  "dynamic_programming 100 [] (- 1) = Inr empty_result \<and>
   \<not> (\<exists>e. dynamic_programming 100 [] (- 1) = Inl e)"
proof -
  have "tables_fit 100 [] (- 1)" by (simp add: tables_fit_def PY_SSIZE_T_MAX_def)
  then show ?thesis
    by (simp add: dynamic_programming_fit dp_run_negative_budget empty_result_def)
qed

text \<open>
  C4, amended. If the budget is negative, \<open>dynamic_programming\<close> first allocates its tables:
  when \<open>budget + 1\<close> is below the least \<^verbatim>\<open>Py_ssize_t\<close> that raises OverflowError;
  otherwise the tables are empty, and it raises IndexError on every non-empty catalog (from
  an access to a table) and returns the empty result with zero totals on the empty
  catalog.
\<close>

theorem negative_budget_exact:
  assumes "budget < 0"
  shows "dynamic_programming mem food_items budget =
     (if budget + 1 < - PY_SSIZE_T_MAX - 1 then Inl OverflowError
      else if food_items = [] then Inr empty_result else Inl IndexError)"
proof (cases "budget + 1 < - PY_SSIZE_T_MAX - 1")
  case True
  then show ?thesis by (simp add: dynamic_programming_alloc)
next
  case False
  then have "tables_fit mem food_items budget"
    using assms by (simp add: tables_fit_def)
  then show ?thesis
    using False dp_run_negative_budget[OF assms, of food_items]
    by (simp add: dynamic_programming_fit empty_result_def)
qed

theorem negative_budget_exact_witness:
  "dynamic_programming 100 drinks (- 1) = Inl IndexError \<and>
   dynamic_programming 100 drinks (- (2 ^ 64)) = Inl OverflowError"
proof -
  have "(- 1 :: int) < 0" "(- (2 ^ 64) :: int) < 0" by simp_all
  from negative_budget_exact[OF this(1), of 100 drinks]
    negative_budget_exact[OF this(2), of 100 drinks]
  show ?thesis
    by (simp add: drinks_def PY_SSIZE_T_MAX_def)
qed







text \<open>
  C7, as stated, fails for the exact selector. With budget 0 it still takes an item of
  cost 0 with positive calories: on \<open>free\<close> it returns that item and 5 calories. And on the
  empty catalog with the budget \<open>2 ^ 63\<close> its allocation raises OverflowError.
\<close>

theorem boundary_results_counterexample:
  "dynamic_programming 100 free 0 =
     Inr \<lparr>items = [''free''], total_cost = 0, total_calories = 5\<rparr> \<and>
   dynamic_programming 100 free 0 \<noteq> Inr empty_result \<and>
   dynamic_programming 100 [] (2 ^ 63) = Inl OverflowError"
  using exact_overflow(2)[of 100 "[]"] by (simp add: exact_free_run empty_result_def)

text \<open>
  C7, amended. With budget 0, \<open>dynamic_programming\<close> returns the empty result with zero
  totals on every catalog with non-negative costs in which no item of cost 0 has positive
  calories, when its two tables can be allocated, and \<open>greedy_algorithm\<close> does on every
  catalog with finite ratios. On the empty catalog, \<open>dynamic_programming\<close> returns the empty
  result with zero totals for every non-negative budget whose table can be allocated, and
  \<open>greedy_algorithm\<close> does for every budget.
\<close>

theorem boundary_results:
  "(distinct (map fst food_items) \<and>
    (\<forall>e \<in> set food_items. 0 \<le> cost (snd e) \<and> (cost (snd e) = 0 \<longrightarrow> calories (snd e) \<le> 0)) \<and>
    tables_fit mem food_items 0 \<longrightarrow>
      dynamic_programming mem food_items 0 = Inr empty_result) \<and>
   (scorable food_items \<longrightarrow> greedy_algorithm food_items 0 = Inr empty_result) \<and>
   (0 \<le> budget \<and> tables_fit mem [] budget \<longrightarrow>
      dynamic_programming mem [] budget = Inr empty_result) \<and>
   greedy_algorithm [] budget = Inr empty_result"
proof (intro conjI impI)
  assume h: "distinct (map fst food_items) \<and>
    (\<forall>e \<in> set food_items. 0 \<le> cost (snd e) \<and> (cost (snd e) = 0 \<longrightarrow> calories (snd e) \<le> 0)) \<and>
    tables_fit mem food_items 0"
  then have c: "\<forall>e \<in> set food_items. 0 \<le> cost (snd e)" by simp
  have "backtrack (rev food_items) 0 = []"
    using h by (intro backtrack_zero) auto
  then have "selection food_items 0 = []" by (simp add: selection_def)
  then show "dynamic_programming mem food_items 0 = Inr empty_result"
    using h dynamic_programming_eq[of food_items 0 mem, OF _ c]
    by (simp add: empty_result_def)
next
  assume "scorable food_items"
  then show "greedy_algorithm food_items 0 = Inr empty_result"
    by (intro greedy_nonpositive_budget) simp_all
next
  assume "0 \<le> budget \<and> tables_fit mem [] budget"
  then show "dynamic_programming mem [] budget = Inr empty_result"
    using dp_run_cases[of "[]" budget] by (simp add: dynamic_programming_fit)
next
  show "greedy_algorithm [] budget = Inr empty_result"
    by (rule greedy_empty_catalog)
qed

theorem boundary_results_witness:
  "dynamic_programming 100 drinks 0 = Inr empty_result \<and>
   greedy_algorithm drinks 0 = Inr empty_result \<and>
   dynamic_programming 100 [] 7 = Inr empty_result \<and>
   greedy_algorithm [] 7 = Inr empty_result"
proof -
  have "distinct (map fst drinks) \<and>
    (\<forall>e \<in> set drinks. 0 \<le> cost (snd e) \<and> (cost (snd e) = 0 \<longrightarrow> calories (snd e) \<le> 0))"
    by (simp add: drinks_def)
  with boundary_results[of drinks 100 7] scorable_drinks tables_fit_drinks tables_fit_empty
  show ?thesis by simp
qed

text \<open>
  C8. When the first loop of \<open>greedy_algorithm\<close> completes with the list \<open>scored\<close>, that
  list holds the items of positive cost in catalog insertion order; the packing pass walks
  \<open>py_sort_reverse ratio_of scored\<close>, which is in descending order of ratio, and for every
  value \<open>q\<close> the items whose exact ratio calories / cost is \<open>q\<close> come in that walk in the
  same order as in \<open>scored\<close>, that is in catalog insertion order.
\<close>

theorem greedy_ties_in_insertion_order:
  assumes "for_loop score_step food_items [] = Inr scored"
  shows "map sc_name scored = map fst (filter (\<lambda>e. 0 < cost (snd e)) food_items) \<and>
         greedy_algorithm food_items budget =
           Inr \<lparr>items = map sc_name (picked budget (py_sort_reverse ratio_of scored) 0),
                total_cost = sc_cost_sum (picked budget (py_sort_reverse ratio_of scored) 0),
                total_calories =
                  sc_calories_sum (picked budget (py_sort_reverse ratio_of scored) 0)\<rparr> \<and>
         sorted (rev (map ratio_of (py_sort_reverse ratio_of scored))) \<and>
         (\<forall>q. filter (\<lambda>x. exact_ratio (sc_data x) = q) (py_sort_reverse ratio_of scored) =
              filter (\<lambda>x. exact_ratio (sc_data x) = q) scored)"
proof -
  from assms have sc: "scorable food_items" and scored: "scored = scored_of food_items"
    by (auto simp: score_loop split: if_splits)
  have "greedy_algorithm food_items budget =
      Inr \<lparr>items = map sc_name (picked budget (py_sort_reverse ratio_of scored) 0),
           total_cost = sc_cost_sum (picked budget (py_sort_reverse ratio_of scored) 0),
           total_calories = sc_calories_sum (picked budget (py_sort_reverse ratio_of scored) 0)\<rparr>"
    using sc by (simp add: greedy_algorithm_eq greedy_picked_def greedy_order_def scored)
  moreover have "\<forall>q. filter (\<lambda>x. exact_ratio (sc_data x) = q) (py_sort_reverse ratio_of scored) =
      filter (\<lambda>x. exact_ratio (sc_data x) = q) scored"
    using greedy_order_stable[of _ food_items] by (simp add: greedy_order_def scored)
  ultimately show ?thesis
    by (simp add: py_sort_reverse_sorted scored sc_name_scored_of)
qed

theorem greedy_ties_in_insertion_order_witness:
  "for_loop score_step drinks [] = Inr [(''a'', 1, 2, 2), (''b'', 2, 4, 2), (''c'', 1, 4, 4)] \<and>
   py_sort_reverse ratio_of [(''a'', 1, 2, 2), (''b'', 2, 4, 2), (''c'', 1, 4, 4)] =
     [(''c'', 1, 4, 4), (''a'', 1, 2, 2), (''b'', 2, 4, 2)] \<and>
   filter (\<lambda>x. exact_ratio (sc_data x) = 2)
     (py_sort_reverse ratio_of [(''a'', 1, 2, 2), (''b'', 2, 4, 2), (''c'', 1, 4, 4)]) =
   filter (\<lambda>x. exact_ratio (sc_data x) = 2) [(''a'', 1, 2, 2), (''b'', 2, 4, 2), (''c'', 1, 4, 4)] \<and>
   filter (\<lambda>x. exact_ratio (sc_data x) = 2) [(''a'', 1, 2, 2), (''b'', 2, 4, 2), (''c'', 1, 4, 4)] =
     [(''a'', 1, 2, 2), (''b'', 2, 4, 2)]"
proof -
  have run: "for_loop score_step drinks [] =
      Inr [(''a'', 1, 2, 2), (''b'', 2, 4, 2), (''c'', 1, 4, 4)]"
    by (simp add: score_loop scorable_drinks scored_of_drinks)
  have order: "py_sort_reverse ratio_of [(''a'', 1, 2, 2), (''b'', 2, 4, 2), (''c'', 1, 4, 4)] =
      [(''c'', 1, 4, 4), (''a'', 1, 2, 2), (''b'', 2, 4, 2)]"
    using greedy_order_drinks by (simp add: greedy_order_def scored_of_drinks)
  have ties: "filter (\<lambda>x. exact_ratio (sc_data x) = 2)
      [(''a'', 1, 2, 2), (''b'', 2, 4, 2), (''c'', 1, 4, 4)] = [(''a'', 1, 2, 2), (''b'', 2, 4, 2)]"
    by (simp add: exact_ratio_def sc_data_def)
  from greedy_ties_in_insertion_order[OF run, of 3] show ?thesis
    using run order ties by simp
qed

text \<open>
  C9, as stated, fails: the selection can end in an error other than a division by zero.
  On a catalog with a free item and an item of cost 1 and \<open>2 ^ 1024\<close> calories the
  division raises OverflowError.
\<close>

theorem greedy_errors_counterexample:
  "greedy_algorithm free_and_huge 10 = Inl OverflowError \<and>
   \<not> (\<exists>r. greedy_algorithm free_and_huge 10 = Inr r)"
  by (simp add: greedy_free_and_huge)

text \<open>
  C9, amended. For every catalog, also with items of \<open>cost \<le> 0\<close>, and every budget:
  if every item of positive cost has a finite ratio, \<open>greedy_algorithm\<close> returns a result,
  and every name in it belongs to an item of positive cost (the items with \<open>cost \<le> 0\<close> are
  skipped); otherwise it raises OverflowError. It never raises ZeroDivisionError.
\<close>

theorem greedy_errors:
  "(scorable food_items \<longrightarrow>
      (\<exists>r. greedy_algorithm food_items budget = Inr r \<and>
           set (items r) \<subseteq> fst ` {e \<in> set food_items. 0 < cost (snd e)})) \<and>
   (\<not> scorable food_items \<longrightarrow> greedy_algorithm food_items budget = Inl OverflowError) \<and>
   greedy_algorithm food_items budget \<noteq> Inl ZeroDivisionError"
proof -
  have "set (greedy_picked food_items budget) \<subseteq> set (greedy_order food_items)"
    using set_mset_mono[OF subseq_mset[OF picked_subseq[of budget "greedy_order food_items" 0]]]
    by (simp add: greedy_picked_def)
  then have "set (map sc_name (greedy_picked food_items budget)) \<subseteq>
      set (map sc_name (greedy_order food_items))"
    by auto
  then have "set (map sc_name (greedy_picked food_items budget)) \<subseteq>
      fst ` {e \<in> set food_items. 0 < cost (snd e)}"
    using greedy_order_names[of food_items] by blast
  then show ?thesis
    by (simp add: greedy_algorithm_eq)
qed

theorem greedy_errors_witness:
  "greedy_algorithm free_and_a 1 = Inr \<lparr>items = [''a''], total_cost = 1, total_calories = 2\<rparr> \<and>
   greedy_algorithm huge 1 = Inl OverflowError"
proof -
  have "\<not> scorable huge"
    using greedy_huge[of 1] by (auto simp: greedy_algorithm_eq split: if_splits)
  with greedy_errors[of huge 1] greedy_errors[of free_and_a 1] show ?thesis
    by (simp add: greedy_free_and_a)
qed

text \<open>
  C10, as stated, fails: with a negative budget the division still runs first, and on a
  catalog with an item of cost 1 and \<open>2 ^ 1024\<close> calories it raises OverflowError.
\<close>

theorem negative_budget_greedy_counterexample:
  "greedy_algorithm huge (- 1) = Inl OverflowError \<and>
   greedy_algorithm huge (- 1) \<noteq> Inr empty_result"
  by (simp add: greedy_huge)

text \<open>
  C10, amended. For every catalog in which every item of positive cost has a finite ratio
  and every negative budget, \<open>greedy_algorithm\<close> returns the empty result with zero totals
  and raises no error.
\<close>

theorem negative_budget_greedy:
  assumes "budget < 0" "scorable food_items"
  shows "greedy_algorithm food_items budget = Inr empty_result"
  using assms by (intro greedy_nonpositive_budget) simp_all

theorem negative_budget_greedy_witness:
  "greedy_algorithm drinks (- 1) = Inr empty_result"
proof -
  have "(- 1 :: int) < 0" by simp
  from negative_budget_greedy[OF this scorable_drinks] show ?thesis .
qed

end
